theory Spec2Isabelle
  imports Main
begin

section \<open>The directory tree read by the traversal\<close>

text \<open>
  \<^verbatim>\<open>directories.py\<close> opens \<^verbatim>\<open>project_structure.txt\<close> for writing, walks the working
  directory top-down with \<^verbatim>\<open>os.walk(".")\<close>, drops six directory names from the list of
  subdirectories before the walk descends, and writes one string per directory and one
  per file.

  A directory is the list of the file names it holds and the list of its subdirectories
  (name and content), both in the order in which the operating system enumerates the
  entries. Entries are regular files and readable directories; symbolic links and
  directories that cannot be read are outside this model.
\<close>

datatype node = Node (files: "string list") (subdirs: "(string \<times> node) list")

subsection \<open>The pieces of \<^verbatim>\<open>os\<close> and \<^verbatim>\<open>os.path\<close> the script calls (POSIX)\<close>

definition sep :: char where
  "sep = CHR ''/''"

text \<open>\<^verbatim>\<open>os.path.join(a, b)\<close>: an absolute \<open>b\<close> replaces \<open>a\<close>; no second separator after one.\<close>

definition join :: "string \<Rightarrow> string \<Rightarrow> string" where
  "join a b =
     (if take 1 b = [sep] then b
      else if a = [] \<or> last a = sep then a @ b
      else a @ sep # b)"

text \<open>\<^verbatim>\<open>os.path.basename(p)\<close>: what follows the last separator.\<close>

definition basename :: "string \<Rightarrow> string" where
  "basename p = rev (takeWhile (\<lambda>c. c \<noteq> sep) (rev p))"

text \<open>
  \<^verbatim>\<open>os.walk(dir, topdown=True)\<close> yields \<open>(dir, dirs, files)\<close>, lets the loop body run,
  and then descends, in order, into the names that the body left in \<open>dirs\<close>: into
  \<open>join dir d\<close>, looked up in the directory again. The body's assignment to \<^verbatim>\<open>dirs[:]\<close>
  is the parameter \<open>mut\<close>. The result is the sequence of triples the loop is run with.
\<close>

function os_walk ::
  "(string list \<Rightarrow> string list) \<Rightarrow> string \<Rightarrow> node \<Rightarrow> (string \<times> string list \<times> string list) list"
where
  "os_walk mut dir (Node fs ds) =
     (dir, map fst ds, fs) #
     concat (map (\<lambda>d. case map_of ds d of
                         None \<Rightarrow> []
                       | Some t \<Rightarrow> os_walk mut (join dir d) t)
                 (mut (map fst ds)))"
  by pat_completeness auto
termination
proof (relation "measure (\<lambda>(mut, dir, t). size t)")
  show "wf (measure (\<lambda>(mut :: string list \<Rightarrow> string list, dir :: string, t :: node). size t))"
    by simp
next
  fix mut :: "string list \<Rightarrow> string list" and dir d :: string
    and fs :: "string list" and ds :: "(string \<times> node) list" and t :: node
  assume "map_of ds d = Some t"
  then have "size t < Suc (size_list (size_prod (\<lambda>_. 0) size) ds)"
    by (induction ds) (auto split: if_splits)
  then show "((mut, join dir d, t), (mut, dir, Node fs ds)) \<in> measure (\<lambda>(mut, dir, t). size t)"
    by simp
qed

declare os_walk.simps [simp del]

section \<open>The script\<close>

definition EXCLUDED :: "string list" where
  "EXCLUDED = [''__pycache__'', ''migrations'', ''venv'', ''env'', ''static'', ''media'']"

text \<open>Line 7: \<^verbatim>\<open>dirs[:] = [d for d in dirs if d not in [...]]\<close>.\<close>

definition prune :: "string list \<Rightarrow> string list" where
  "prune dirs = [d \<leftarrow> dirs. d \<notin> set EXCLUDED]"

text \<open>Line 8: \<^verbatim>\<open>level = root.count(os.sep)\<close>.\<close>

definition level :: "string \<Rightarrow> nat" where
  "level root = count_list root sep"

text \<open>Python's \<^verbatim>\<open>s * n\<close> on a string.\<close>

definition str_mul :: "string \<Rightarrow> nat \<Rightarrow> string" where
  "str_mul s n = concat (replicate n s)"

definition newline :: string where
  "newline = [CHR 0x0A]"

text \<open>Lines 9 and 10: the string written for the directory itself.\<close>

definition dir_write :: "string \<Rightarrow> string" where
  "dir_write root =
     (let indent = str_mul ''  '' (level root)
      in indent @ basename root @ ''/'' @ newline)"

text \<open>Lines 11 and 13: the string written for one file of the directory.\<close>

definition file_write :: "string \<Rightarrow> string \<Rightarrow> string" where
  "file_write root file =
     (let subindent = str_mul ''  '' (level root + 1)
      in subindent @ file @ newline)"

text \<open>Lines 8 to 13: what one run of the loop body writes, one string per \<^verbatim>\<open>f.write\<close>.\<close>

definition loop_body :: "string \<times> string list \<times> string list \<Rightarrow> string list" where
  "loop_body = (\<lambda>(root, dirs, fls). dir_write root # map (file_write root) fls)"

text \<open>Lines 5 to 13: everything the loop writes over the tree that the walk reads.\<close>

definition tree_writer :: "node \<Rightarrow> string list" where
  "tree_writer t = concat (map loop_body (os_walk prune ''.'' t))"

subsection \<open>The output file and the whole run\<close>

text \<open>
  The state of a run: the tree under the working directory, whether the operating
  system grants opening the output file for writing, the position that a newly created
  entry takes in the enumeration of the working directory, and the strings that make up
  the content of \<^verbatim>\<open>project_structure.txt\<close>.
\<close>

datatype error = OSError

record filesystem =
  cwd :: node
  may_write :: bool
  new_slot :: nat
  structure_txt :: "string list"

definition OUTPUT :: string where
  "OUTPUT = ''project_structure.txt''"

definition insert_at :: "nat \<Rightarrow> 'a \<Rightarrow> 'a list \<Rightarrow> 'a list" where
  "insert_at k x xs = take k xs @ x # drop k xs"

definition can_open :: "filesystem \<Rightarrow> bool" where
  "can_open fs = (may_write fs \<and> OUTPUT \<notin> set (map fst (subdirs (cwd fs))))"

text \<open>
  Line 4, \<^verbatim>\<open>open("project_structure.txt", "w")\<close>: fails when writing is refused or the
  name is a directory; otherwise the file exists afterwards in the working directory
  (created when it was absent) and it is empty.
\<close>

definition open_w :: "filesystem \<Rightarrow> error + filesystem" where
  "open_w fs =
     (if can_open fs
      then Inr (fs\<lparr>cwd := (if OUTPUT \<in> set (files (cwd fs)) then cwd fs
                           else Node (insert_at (new_slot fs) OUTPUT (files (cwd fs)))
                                     (subdirs (cwd fs))),
                   structure_txt := []\<rparr>)
      else Inl OSError)"

text \<open>The script: the file is opened first, the loop runs inside the \<^verbatim>\<open>with\<close> block.\<close>

definition main :: "filesystem \<Rightarrow> (error + unit) \<times> filesystem" where
  "main fs =
     (case open_w fs of
        Inl e \<Rightarrow> (Inl e, fs)
      | Inr fs1 \<Rightarrow> (Inr (), fs1\<lparr>structure_txt := tree_writer (cwd fs1)\<rparr>))"

section \<open>Directories of a tree, by their path below the root\<close>

text \<open>
  What every file system guarantees of the names in one directory: a name is not empty
  and holds no separator, and no two entries of a directory share a name.
\<close>

definition wf_name :: "string \<Rightarrow> bool" where
  "wf_name n = (n \<noteq> [] \<and> sep \<notin> set n)"

fun wf_tree :: "node \<Rightarrow> bool" where
  "wf_tree (Node fs ds) =
     (distinct fs \<and> distinct (map fst ds) \<and> list_all (\<lambda>(n, t). wf_name n \<and> wf_tree t) ds)"

text \<open>The directory reached from \<open>t\<close> by the names \<open>cs\<close>, one per level; its depth is \<open>length cs\<close>.\<close>

fun dir_at :: "node \<Rightarrow> string list \<Rightarrow> node option" where
  "dir_at t [] = Some t"
| "dir_at t (c # cs) = (case map_of (subdirs t) c of None \<Rightarrow> None | Some u \<Rightarrow> dir_at u cs)"

text \<open>The path string of that directory, as the walk started at \<^verbatim>\<open>"."\<close> spells it.\<close>

definition path_of :: "string list \<Rightarrow> string" where
  "path_of cs = ''.'' @ concat (map (\<lambda>c. sep # c) cs)"



text \<open>
  The directories reached without passing through an excluded name, in preorder, each
  with its path.
\<close>

fun reach :: "node \<Rightarrow> (string list \<times> node) list" where
  "reach (Node fs ds) =
     ([], Node fs ds) #
     concat (map (\<lambda>(n, t). map (\<lambda>(cs, u). (n # cs, u)) (reach t))
                 [(n, t) \<leftarrow> ds. n \<notin> set EXCLUDED])"

text \<open>The triple the loop is run with at the directory \<open>u\<close> found under the path \<open>pre @ cs\<close>.\<close>

definition visit :: "string list \<Rightarrow> string list \<times> node \<Rightarrow> string \<times> string list \<times> string list" where
  "visit pre = (\<lambda>(cs, u). (path_of (pre @ cs), map fst (subdirs u), files u))"

text \<open>The tree without its excluded subdirectories, at every level.\<close>

fun drop_excluded :: "node \<Rightarrow> node" where
  "drop_excluded (Node fs ds) =
     Node fs (map (\<lambda>(n, t). (n, drop_excluded t)) [(n, t) \<leftarrow> ds. n \<notin> set EXCLUDED])"

subsection \<open>Two concrete inputs\<close>

text \<open>
  A tree with an excluded directory at the root and another one level down, and a file
  that bears an excluded name; and the state of a run started in a directory without
  any entry.
\<close>

definition example_tree :: node where
  "example_tree =
     Node [''a.py'', ''venv'']
          [(''venv'', Node [''x''] []),
           (''src'', Node [''main.py''] [(''env'', Node [''e''] []), (''lib'', Node [''u''] [])])]"

definition empty_dir :: filesystem where
  "empty_dir = \<lparr>cwd = Node [] [], may_write = True, new_slot = 0, structure_txt = []\<rparr>"

section \<open>Paths, names and the separator count\<close>

lemma path_of_Nil: "path_of [] = ''.''"
  by (simp add: path_of_def)

lemma path_of_snoc: "path_of (cs @ [n]) = path_of cs @ sep # n"
  by (simp add: path_of_def)

lemma path_of_last:
  "list_all wf_name cs \<Longrightarrow> path_of cs \<noteq> [] \<and> last (path_of cs) \<noteq> sep"
proof (induction cs rule: rev_induct)
  case Nil
  then show ?case by (simp add: path_of_def sep_def)
next
  case (snoc n cs)
  then have "n \<noteq> []" and "sep \<notin> set n"
    by (simp_all add: wf_name_def)
  then have "last n \<noteq> sep"
    using last_in_set by metis
  with \<open>n \<noteq> []\<close> show ?case
    by (simp add: path_of_snoc)
qed

lemma join_path_of:
  assumes "list_all wf_name cs" and "wf_name n"
  shows "join (path_of cs) n = path_of (cs @ [n])"
proof -
  from assms(2) obtain c n' where n: "n = c # n'" and "c \<noteq> sep"
    by (cases n) (auto simp: wf_name_def)
  then have "take 1 n \<noteq> [sep]"
    by simp
  with path_of_last [OF assms(1)] show ?thesis
    by (simp add: join_def path_of_snoc)
qed

lemma takeWhile_component:
  "sep \<notin> set z \<Longrightarrow> q = [] \<or> hd q = sep \<Longrightarrow> takeWhile (\<lambda>c. c \<noteq> sep) (z @ q) = z"
  by (induction z) (cases q; auto)+

lemma component_split:
  assumes "sep \<notin> set x" and "sep \<notin> set y"
    and "r = [] \<or> hd r = sep" and "r' = [] \<or> hd r' = sep"
    and "x @ r = y @ r'"
  shows "x = y \<and> r = r'"
proof -
  have "x = takeWhile (\<lambda>c. c \<noteq> sep) (x @ r)"
    using takeWhile_component [OF assms(1,3)] by simp
  also have "\<dots> = y"
    unfolding assms(5) using takeWhile_component [OF assms(2,4)] .
  finally have "x = y" .
  with assms(5) show ?thesis by simp
qed

lemma suffix_inj:
  "list_all wf_name a \<Longrightarrow> list_all wf_name b \<Longrightarrow>
   concat (map (\<lambda>c. sep # c) a) = concat (map (\<lambda>c. sep # c) b) \<Longrightarrow> a = b"
proof (induction a arbitrary: b)
  case Nil
  then show ?case by (cases b) auto
next
  case (Cons x xs)
  show ?case
  proof (cases b)
    case Nil
    with Cons.prems show ?thesis by simp
  next
    case (Cons y ys)
    let ?r = "concat (map (\<lambda>c. sep # c) xs)" and ?r' = "concat (map (\<lambda>c. sep # c) ys)"
    have "?r = [] \<or> hd ?r = sep" by (cases xs) auto
    moreover have "?r' = [] \<or> hd ?r' = sep" by (cases ys) auto
    moreover have "x @ ?r = y @ ?r'"
      using Cons.prems(3) Cons by simp
    moreover have "sep \<notin> set x" "sep \<notin> set y"
      using Cons.prems(1,2) Cons by (simp_all add: wf_name_def)
    ultimately have "x = y \<and> ?r = ?r'"
      by (intro component_split)
    moreover from this have "xs = ys"
      using Cons.IH [of ys] Cons.prems(1,2) Cons by simp
    ultimately show ?thesis using Cons by simp
  qed
qed

lemma path_of_inj:
  "list_all wf_name a \<Longrightarrow> list_all wf_name b \<Longrightarrow> path_of a = path_of b \<longleftrightarrow> a = b"
  by (auto simp: path_of_def dest: suffix_inj)

lemma level_path_of:
  "list_all wf_name cs \<Longrightarrow> level (path_of cs) = length cs"
proof (induction cs rule: rev_induct)
  case Nil
  then show ?case by (simp add: level_def path_of_def sep_def)
next
  case (snoc n cs)
  then have "count_list n sep = 0"
    by (simp add: wf_name_def)
  with snoc show ?case
    by (simp add: level_def path_of_snoc)
qed



section \<open>The walk visits the reachable directories, each once\<close>

lemma prune_fst:
  "prune (map fst ds) = map fst [(n, t) \<leftarrow> ds. n \<notin> set EXCLUDED]"
  by (induction ds) (auto simp: prune_def)

lemma walk_children:
  assumes "distinct (map fst ds)"
  shows "os_walk prune dir (Node fs ds) =
           (dir, map fst ds, fs) #
           concat (map (\<lambda>(n, t). os_walk prune (join dir n) t)
                       [(n, t) \<leftarrow> ds. n \<notin> set EXCLUDED])"
proof -
  have "map (\<lambda>d. case map_of ds d of None \<Rightarrow> [] | Some t \<Rightarrow> os_walk prune (join dir d) t)
            (prune (map fst ds))
        = map (\<lambda>(n, t). os_walk prune (join dir n) t) [(n, t) \<leftarrow> ds. n \<notin> set EXCLUDED]"
    unfolding prune_fst map_map
  proof (rule map_cong [OF refl])
    fix x assume "x \<in> set [(n, t) \<leftarrow> ds. n \<notin> set EXCLUDED]"
    then have "(fst x, snd x) \<in> set ds" by simp
    with assms have "map_of ds (fst x) = Some (snd x)"
      by (rule map_of_is_SomeI)
    then show "((\<lambda>d. case map_of ds d of None \<Rightarrow> [] | Some t \<Rightarrow> os_walk prune (join dir d) t) \<circ> fst) x
               = (case x of (n, t) \<Rightarrow> os_walk prune (join dir n) t)"
      by (simp add: case_prod_beta)
  qed
  then show ?thesis by (simp add: os_walk.simps)
qed

lemma walk_reach:
  "wf_tree t \<Longrightarrow> list_all wf_name pre \<Longrightarrow>
   os_walk prune (path_of pre) t = map (visit pre) (reach t)"
proof (induction t arbitrary: pre rule: reach.induct)
  case (1 fs ds)
  have d: "distinct (map fst ds)" using "1.prems"(1) by simp
  have "map (\<lambda>(n, t). os_walk prune (join (path_of pre) n) t) [(n, t) \<leftarrow> ds. n \<notin> set EXCLUDED]
        = map (\<lambda>(n, t). map (visit pre) (map (\<lambda>(cs, u). (n # cs, u)) (reach t)))
              [(n, t) \<leftarrow> ds. n \<notin> set EXCLUDED]"
  proof (rule map_cong [OF refl])
    fix x assume x: "x \<in> set [(n, t) \<leftarrow> ds. n \<notin> set EXCLUDED]"
    obtain n t where nt: "x = (n, t)" by (cases x)
    with x have mem: "(n, t) \<in> set ds" by simp
    with "1.prems"(1) have wn: "wf_name n" and wt: "wf_tree t"
      by (auto simp: list_all_iff)
    have pre': "list_all wf_name (pre @ [n])"
      using "1.prems"(2) wn by simp
    have "os_walk prune (path_of (pre @ [n])) t = map (visit (pre @ [n])) (reach t)"
      using "1.IH" [OF x nt [symmetric] wt pre'] .
    moreover have "map (visit (pre @ [n])) (reach t)
                   = map (visit pre) (map (\<lambda>(cs, u). (n # cs, u)) (reach t))"
      by (simp add: visit_def case_prod_beta comp_def)
    ultimately show "(case x of (n, t) \<Rightarrow> os_walk prune (join (path_of pre) n) t)
          = (case x of (n, t) \<Rightarrow> map (visit pre) (map (\<lambda>(cs, u). (n # cs, u)) (reach t)))"
      using join_path_of [OF "1.prems"(2) wn] nt by simp
  qed
  then have "os_walk prune (path_of pre) (Node fs ds)
        = (path_of pre, map fst ds, fs) #
          concat (map (\<lambda>(n, t). map (visit pre) (map (\<lambda>(cs, u). (n # cs, u)) (reach t)))
                      [(n, t) \<leftarrow> ds. n \<notin> set EXCLUDED])"
    by (simp only: walk_children [OF d])
  also have "\<dots> = map (visit pre) (reach (Node fs ds))"
    by (simp add: visit_def map_concat comp_def split_def)
  finally show ?case .
qed


lemma reach_iff:
  "wf_tree t \<Longrightarrow>
   (cs, u) \<in> set (reach t) \<longleftrightarrow> dir_at t cs = Some u \<and> set cs \<inter> set EXCLUDED = {}"
proof (induction t arbitrary: cs rule: reach.induct)
  case (1 fs ds)
  have d: "distinct (map fst ds)" using "1.prems" by simp
  show ?case
  proof (cases cs)
    case Nil
    then show ?thesis
      by (auto simp: split_def)
  next
    case (Cons c cs')
    have "(c # cs', u) \<in> set (reach (Node fs ds))
          \<longleftrightarrow> (\<exists>t. (c, t) \<in> set ds \<and> c \<notin> set EXCLUDED \<and> (cs', u) \<in> set (reach t))"
      by (force simp: split_def)
    also have "\<dots> \<longleftrightarrow> (\<exists>t. (c, t) \<in> set ds \<and> c \<notin> set EXCLUDED \<and>
                           dir_at t cs' = Some u \<and> set cs' \<inter> set EXCLUDED = {})"
    proof -
      have "(cs', u) \<in> set (reach t) \<longleftrightarrow> dir_at t cs' = Some u \<and> set cs' \<inter> set EXCLUDED = {}"
        if "(c, t) \<in> set ds" "c \<notin> set EXCLUDED" for t
      proof -
        from that have x: "(c, t) \<in> set [(n, t) \<leftarrow> ds. n \<notin> set EXCLUDED]" by simp
        from that(1) "1.prems" have "wf_tree t" by (auto simp: list_all_iff)
        from "1.IH" [OF x refl this] show ?thesis .
      qed
      then show ?thesis by blast
    qed
    also have "\<dots> \<longleftrightarrow> dir_at (Node fs ds) (c # cs') = Some u \<and>
                         set (c # cs') \<inter> set EXCLUDED = {}"
    proof -
      have m: "(c, t) \<in> set ds \<longleftrightarrow> map_of ds c = Some t" for t
        using d by simp
      show ?thesis
        unfolding m by (auto split: option.splits)
    qed
    finally show ?thesis using Cons by simp
  qed
qed



lemma dir_at_wf:
  "wf_tree t \<Longrightarrow> dir_at t cs = Some u \<Longrightarrow> list_all wf_name cs \<and> wf_tree u"
proof (induction cs arbitrary: t)
  case Nil
  then show ?case by simp
next
  case (Cons c cs)
  from Cons.prems(2) obtain v where v: "map_of (subdirs t) c = Some v" and u: "dir_at v cs = Some u"
    by (auto split: option.splits)
  from v have "(c, v) \<in> set (subdirs t)" by (rule map_of_SomeD)
  with Cons.prems(1) have "wf_name c" and "wf_tree v"
    by (cases t; auto simp: list_all_iff)+
  with Cons.IH [OF \<open>wf_tree v\<close> u] show ?case by simp
qed

lemma walk_root:
  "wf_tree t \<Longrightarrow> os_walk prune ''.'' t = map (visit []) (reach t)"
  using walk_reach [of t "[]"] by (simp add: path_of_Nil)




lemma visited_is_dir:
  assumes "wf_tree t" and "v \<in> set (os_walk prune ''.'' t)"
  shows "\<exists>cs u. dir_at t cs = Some u \<and> set cs \<inter> set EXCLUDED = {} \<and> list_all wf_name cs \<and>
           v = (path_of cs, map fst (subdirs u), files u)"
proof -
  from assms obtain p where p: "p \<in> set (reach t)" and v: "v = visit [] p"
    by (auto simp: walk_root)
  obtain cs u where cu: "p = (cs, u)" by (cases p)
  with p reach_iff [OF assms(1)] have "dir_at t cs = Some u" and "set cs \<inter> set EXCLUDED = {}"
    by simp_all
  moreover from this dir_at_wf [OF assms(1)] have "list_all wf_name cs" by blast
  ultimately show ?thesis
    using v cu by (auto simp: visit_def)
qed



lemma files_drop_excluded: "files (drop_excluded t) = files t"
  by (cases t) simp

lemma kept_after_drop:
  "[(n, t) \<leftarrow> map (\<lambda>(n, t). (n, g t)) [(n, t) \<leftarrow> ds. n \<notin> set EXCLUDED]. n \<notin> set EXCLUDED]
   = map (\<lambda>(n, t). (n, g t)) [(n, t) \<leftarrow> ds. n \<notin> set EXCLUDED]"
  by (induction ds) auto

lemma reach_drop_excluded:
  "reach (drop_excluded t) = map (\<lambda>(cs, u). (cs, drop_excluded u)) (reach t)"
proof (induction t rule: reach.induct)
  case (1 fs ds)
  let ?ks = "[(n, t) \<leftarrow> ds. n \<notin> set EXCLUDED]"
  have "map (\<lambda>(n, t). map (\<lambda>(cs, u). (n # cs, u)) (reach (drop_excluded t))) ?ks
        = map (\<lambda>(n, t). map (\<lambda>(cs, u). (n # cs, drop_excluded u)) (reach t)) ?ks"
  proof (rule map_cong [OF refl])
    fix x assume x: "x \<in> set ?ks"
    obtain n t where nt: "x = (n, t)" by (cases x)
    from "1.IH" [OF x nt [symmetric]] nt
    show "(case x of (n, t) \<Rightarrow> map (\<lambda>(cs, u). (n # cs, u)) (reach (drop_excluded t)))
          = (case x of (n, t) \<Rightarrow> map (\<lambda>(cs, u). (n # cs, drop_excluded u)) (reach t))"
      by (simp add: split_def)
  qed
  then have "concat (map (\<lambda>(n, t). map (\<lambda>(cs, u). (n # cs, u)) (reach (drop_excluded t))) ?ks)
        = concat (map (\<lambda>(n, t). map (\<lambda>(cs, u). (n # cs, drop_excluded u)) (reach t)) ?ks)"
    by (rule arg_cong [where f = concat])
  then show ?case
    by (simp add: kept_after_drop map_concat comp_def split_def)
qed

lemma wf_drop_excluded: "wf_tree t \<Longrightarrow> wf_tree (drop_excluded t)"
proof (induction t rule: reach.induct)
  case (1 fs ds)
  let ?ks = "[(n, t) \<leftarrow> ds. n \<notin> set EXCLUDED]"
  let ?g = "\<lambda>(n, t). (n, drop_excluded t)"
  have names: "map fst (map ?g ?ks) = map fst ?ks"
    by (simp add: comp_def split_def)
  have kept: "wf_name n \<and> wf_tree (drop_excluded t)" if "(n, t) \<in> set ?ks" for n t
  proof -
    from that "1.prems" have "wf_name n" and "wf_tree t"
      by (auto simp: list_all_iff)
    with "1.IH" [OF that refl] show ?thesis by simp
  qed
  show ?case
    unfolding drop_excluded.simps wf_tree.simps
  proof (intro conjI)
    show "distinct fs"
      using "1.prems" by simp
    show "distinct (map fst (map ?g ?ks))"
      unfolding names using "1.prems" by (simp add: distinct_map_filter)
    show "list_all (\<lambda>(n, t). wf_name n \<and> wf_tree t) (map ?g ?ks)"
      using kept by (auto simp: list_all_iff)
  qed
qed

lemma tree_writer_drop_excluded:
  assumes "wf_tree t"
  shows "tree_writer (drop_excluded t) = tree_writer t"
proof -
  have "map loop_body (map (visit []) (reach (drop_excluded t)))
        = map loop_body (map (visit []) (reach t))"
    by (simp add: reach_drop_excluded loop_body_def visit_def split_def comp_def files_drop_excluded)
  then show ?thesis
    by (simp add: tree_writer_def walk_root assms wf_drop_excluded)
qed

subsection \<open>The concrete inputs, evaluated\<close>

lemma example_wf: "wf_tree example_tree"
  by (simp add: example_tree_def wf_name_def sep_def)

lemma example_walk:
  "os_walk prune ''.'' example_tree =
     [(''.'', [''venv'', ''src''], [''a.py'', ''venv'']),
      (''./src'', [''env'', ''lib''], [''main.py'']),
      (''./src/lib'', [], [''u''])]"
  by (simp add: example_tree_def os_walk.simps prune_def EXCLUDED_def join_def sep_def)

lemma empty_dir_run:
  "main \<lparr>cwd = Node [] [], may_write = True, new_slot = k, structure_txt = old\<rparr>
   = (Inr (), \<lparr>cwd = Node [''project_structure.txt''] [], may_write = True, new_slot = k,
               structure_txt = [''./'' @ newline, ''  project_structure.txt'' @ newline]\<rparr>)"
  by (simp add: main_def open_w_def can_open_def OUTPUT_def insert_at_def tree_writer_def
      os_walk.simps prune_def loop_body_def dir_write_def file_write_def level_def basename_def
      sep_def str_mul_def)

section \<open>The properties of the listing\<close>

text \<open>
  Throughout, \<open>t\<close> is the tree that the walk reads and \<open>os_walk prune ''.'' t\<close> is the
  sequence of loop iterations; the listing is the concatenation of what each iteration
  writes, so a line belongs to the directory whose iteration wrote it. A directory is
  named by the list \<open>cs\<close> of names leading to it, and its depth is \<open>length cs\<close>.
\<close>

text \<open>
  \<^bold>\<open>C1\<close>. A directory whose path from the root passes through an excluded name (the
  excluded subdirectory itself, or anything beneath it) is the root of no loop iteration,
  so no line is written for it nor for a file in it; and the listing is the one of the
  tree in which every excluded subdirectory has been deleted with all that it holds.
\<close>

theorem excluded_subtree_never_visited:
  assumes "wf_tree t" and "dir_at t cs = Some u" and "set cs \<inter> set EXCLUDED \<noteq> {}"
  shows "path_of cs \<notin> fst ` set (os_walk prune ''.'' t)
       \<and> tree_writer (drop_excluded t) = tree_writer t"
proof
  show "path_of cs \<notin> fst ` set (os_walk prune ''.'' t)"
  proof
    assume "path_of cs \<in> fst ` set (os_walk prune ''.'' t)"
    then obtain v where v: "v \<in> set (os_walk prune ''.'' t)" and "fst v = path_of cs"
      by auto
    with visited_is_dir [OF assms(1) v] obtain cs' where
      "set cs' \<inter> set EXCLUDED = {}" and "list_all wf_name cs'" and "path_of cs' = path_of cs"
      by auto
    moreover have "list_all wf_name cs"
      using dir_at_wf [OF assms(1,2)] by simp
    ultimately have "set cs \<inter> set EXCLUDED = {}"
      by (simp add: path_of_inj)
    with assms(3) show False by simp
  qed
  show "tree_writer (drop_excluded t) = tree_writer t"
    using assms(1) by (rule tree_writer_drop_excluded)
qed

theorem excluded_subtree_never_visited_witness:
  "wf_tree example_tree \<and> dir_at example_tree [''src'', ''env''] = Some (Node [''e''] [])
   \<and> set [''src'', ''env''] \<inter> set EXCLUDED \<noteq> {}
   \<and> path_of [''src'', ''env''] \<notin> fst ` set (os_walk prune ''.'' example_tree)
   \<and> tree_writer (drop_excluded example_tree) = tree_writer example_tree"
proof -
  have h2: "dir_at example_tree [''src'', ''env''] = Some (Node [''e''] [])"
    by (simp add: example_tree_def)
  have h3: "set [''src'', ''env''] \<inter> set EXCLUDED \<noteq> {}"
    by (simp add: EXCLUDED_def)
  from excluded_subtree_never_visited [OF example_wf h2 h3] example_wf h2 h3
  show ?thesis by blast
qed





text \<open>
  \<^bold>\<open>C4\<close>. The root string of every loop iteration is the path of a directory of the tree,
  and the number of separators counted in it is the depth of that directory; the count
  for the start path is 0.
\<close>

theorem level_is_depth:
  assumes "wf_tree t" and "(root, dirs, fls) \<in> set (os_walk prune ''.'' t)"
  shows "(\<exists>cs u. dir_at t cs = Some u \<and> root = path_of cs \<and> level root = length cs)
       \<and> level ''.'' = 0"
proof -
  from visited_is_dir [OF assms] obtain cs u where
    "dir_at t cs = Some u" and "list_all wf_name cs" and "root = path_of cs"
    by auto
  then show ?thesis
    using level_path_of [of cs] by (auto simp: level_def sep_def)
qed

theorem level_is_depth_witness:
  "wf_tree example_tree \<and> (''./src/lib'', [], [''u'']) \<in> set (os_walk prune ''.'' example_tree)
   \<and> (\<exists>cs u. dir_at example_tree cs = Some u \<and> ''./src/lib'' = path_of cs
          \<and> level ''./src/lib'' = length cs)
   \<and> level ''.'' = 0"
proof -
  have h2: "(''./src/lib'', [], [''u'']) \<in> set (os_walk prune ''.'' example_tree)"
    by (simp add: example_walk)
  from level_is_depth [OF example_wf h2] example_wf h2
  show ?thesis by blast
qed

text \<open>
  \<^bold>\<open>C5\<close>. A run that succeeds leaves a state on which the next run succeeds and changes
  nothing: the file is written again from empty with the same content.
\<close>

theorem second_run_same_output:
  assumes "main fs = (Inr (), fs')"
  shows "main fs' = (Inr (), fs')"
proof -
  obtain fl ds where c: "cwd fs = Node fl ds" by (cases "cwd fs")
  from assms have co: "can_open fs"
    by (auto simp: main_def open_w_def split: if_splits)
  show ?thesis
    using assms co c
    by (auto simp: main_def open_w_def can_open_def insert_at_def split: if_splits)
qed

theorem second_run_same_output_witness:
  "main empty_dir
     = (Inr (), \<lparr>cwd = Node [''project_structure.txt''] [], may_write = True, new_slot = 0,
                 structure_txt = [''./'' @ newline, ''  project_structure.txt'' @ newline]\<rparr>)
   \<and> main \<lparr>cwd = Node [''project_structure.txt''] [], may_write = True, new_slot = 0,
            structure_txt = [''./'' @ newline, ''  project_structure.txt'' @ newline]\<rparr>
     = (Inr (), \<lparr>cwd = Node [''project_structure.txt''] [], may_write = True, new_slot = 0,
                 structure_txt = [''./'' @ newline, ''  project_structure.txt'' @ newline]\<rparr>)"
proof -
  have h: "main empty_dir
     = (Inr (), \<lparr>cwd = Node [''project_structure.txt''] [], may_write = True, new_slot = 0,
                 structure_txt = [''./'' @ newline, ''  project_structure.txt'' @ newline]\<rparr>)"
    unfolding empty_dir_def by (rule empty_dir_run)
  from second_run_same_output [OF h] h
  show ?thesis by blast
qed

text \<open>
  \<^bold>\<open>C6\<close>. When the output file cannot be opened, the run ends with the error of
  \<^verbatim>\<open>open\<close> and the state is the one it started from: the loop never ran and nothing was
  written.
\<close>

theorem open_failure_no_output:
  assumes "\<not> can_open fs"
  shows "main fs = (Inl OSError, fs)"
  using assms by (simp add: main_def open_w_def)

theorem open_failure_no_output_witness:
  "\<not> can_open \<lparr>cwd = Node [''a''] [(''project_structure.txt'', Node [] [])], may_write = True,
                new_slot = 0, structure_txt = []\<rparr>
   \<and> main \<lparr>cwd = Node [''a''] [(''project_structure.txt'', Node [] [])], may_write = True,
            new_slot = 0, structure_txt = []\<rparr>
     = (Inl OSError, \<lparr>cwd = Node [''a''] [(''project_structure.txt'', Node [] [])],
                      may_write = True, new_slot = 0, structure_txt = []\<rparr>)"
proof -
  have h: "\<not> can_open \<lparr>cwd = Node [''a''] [(''project_structure.txt'', Node [] [])],
                         may_write = True, new_slot = 0, structure_txt = []\<rparr>"
    by (simp add: can_open_def OUTPUT_def)
  from open_failure_no_output [OF h] h
  show ?thesis by blast
qed

text \<open>
  \<^bold>\<open>C7\<close>. In a working directory without any entry the script does not write the single
  line \<^verbatim>\<open>./\<close>: the output file is created in that directory before the walk reads it,
  so the walk finds it and the listing has a second line for it.
\<close>

theorem empty_tree_one_line_counterexample:
  "structure_txt (snd (main empty_dir)) \<noteq> [''./'' @ newline]"
  by (simp add: empty_dir_def empty_dir_run)

text \<open>
  \<^bold>\<open>C7\<close>, amended. Run in a writable working directory without any entry, the script
  writes two lines, \<^verbatim>\<open>./\<close> and the line of \<^verbatim>\<open>project_structure.txt\<close>; the loop over a
  directory in which the walk finds no entry at all writes the line \<^verbatim>\<open>./\<close> alone.
\<close>

theorem empty_tree_two_lines:
  "main \<lparr>cwd = Node [] [], may_write = True, new_slot = k, structure_txt = old\<rparr>
     = (Inr (), \<lparr>cwd = Node [OUTPUT] [], may_write = True, new_slot = k,
                 structure_txt = [''./'' @ newline, ''  project_structure.txt'' @ newline]\<rparr>)
   \<and> tree_writer (Node [] []) = [''./'' @ newline]"
  by (simp add: empty_dir_run OUTPUT_def tree_writer_def os_walk.simps prune_def loop_body_def
      dir_write_def level_def basename_def sep_def str_mul_def)




text \<open>
  \<^bold>\<open>C10\<close>. What an iteration writes stands in the listing as one block, between the
  blocks of the iterations before it and of those after it: the directory's line, then
  its file lines, and right after them either nothing or the directory line of a later
  iteration.
\<close>

theorem file_lines_contiguous:
  assumes "(root, dirs, fls) \<in> set (os_walk prune ''.'' t)"
  shows "\<exists>before after.
           os_walk prune ''.'' t = before @ (root, dirs, fls) # after
         \<and> tree_writer t = concat (map loop_body before)
                            @ (dir_write root # map (file_write root) fls)
                            @ concat (map loop_body after)
         \<and> (concat (map loop_body after) = []
            \<or> (\<exists>r rest. r \<in> fst ` set after \<and> concat (map loop_body after) = dir_write r # rest))"
proof -
  from assms obtain before after where
    w: "os_walk prune ''.'' t = before @ (root, dirs, fls) # after"
    by (auto simp: in_set_conv_decomp)
  let ?post = "concat (map loop_body after)"
  have "tree_writer t = concat (map loop_body before)
                        @ (dir_write root # map (file_write root) fls) @ ?post"
    by (simp add: tree_writer_def w loop_body_def)
  moreover have "?post = [] \<or> (\<exists>r rest. r \<in> fst ` set after \<and> ?post = dir_write r # rest)"
  proof (cases after)
    case Nil
    then show ?thesis by simp
  next
    case (Cons v vs)
    then have "fst v \<in> fst ` set after"
      by simp
    moreover have "?post = dir_write (fst v) # map (file_write (fst v)) (snd (snd v))
                           @ concat (map loop_body vs)"
      by (simp add: Cons loop_body_def split_def)
    ultimately show ?thesis by blast
  qed
  ultimately show ?thesis
    using w by blast
qed

theorem file_lines_contiguous_witness:
  "(''./src'', [''env'', ''lib''], [''main.py'']) \<in> set (os_walk prune ''.'' example_tree)
   \<and> (\<exists>before after.
           os_walk prune ''.'' example_tree = before @ (''./src'', [''env'', ''lib''], [''main.py'']) # after
         \<and> tree_writer example_tree
             = concat (map loop_body before)
               @ (dir_write ''./src'' # map (file_write ''./src'') [''main.py''])
               @ concat (map loop_body after)
         \<and> (concat (map loop_body after) = []
            \<or> (\<exists>r rest. r \<in> fst ` set after \<and> concat (map loop_body after) = dir_write r # rest)))"
proof -
  have h: "(''./src'', [''env'', ''lib''], [''main.py'']) \<in> set (os_walk prune ''.'' example_tree)"
    by (simp add: example_walk)
  from file_lines_contiguous [OF h] h
  show ?thesis by blast
qed

end
